theory Spec2Isabelle
  imports Main "HOL-Library.Char_ord" "HOL-Library.List_Lexorder" "HOL-Library.Sublist"
begin

section \<open>Text primitives of the script\<close>

text \<open>
  Text is modelled as its UTF-8 byte string (\<open>string\<close> is \<open>char list\<close>, a \<open>char\<close> is a
  byte), for text that is valid UTF-8.  Splitting on the ASCII delimiter \<open>|\<close> and comparing
  strings are the same on UTF-8 bytes as on Python's code points.  White space and line
  boundaries are those of \<open>str.isspace\<close> and \<open>str.splitlines\<close> on all of Unicode, matched
  as UTF-8 sequences.  \<open>str.upper\<close> and \<open>str.lower\<close> map every character whose case form
  contains an ASCII character as CPython does; a character whose case form has no ASCII
  character is copied, which makes no difference to the script: it only looks for the
  ASCII text \<open>WIP\<close> in an upper-cased subject and compares a lower-cased argument with
  three ASCII words.
\<close>

definition nl :: string where
  "nl = [CHR 0x0A]"

definition dquote :: string where
  "dquote = [CHR 0x22]"

definition em_dash :: string where
  "em_dash = [CHR 0xE2, CHR 0x80, CHR 0x94]"

definition page_glyph :: string where
  "page_glyph = [CHR 0xF0, CHR 0x9F, CHR 0x93, CHR 0x84]"

definition check_glyph :: string where
  "check_glyph = [CHR 0xE2, CHR 0x9C, CHR 0x85]"

definition cross_glyph :: string where
  "cross_glyph = [CHR 0xE2, CHR 0x9D, CHR 0x8C]"

text \<open>
  The characters for which \<open>str.isspace\<close> holds, in UTF-8: the ten ASCII ones, then U+0085,
  U+00A0, U+1680, U+2000 to U+200A, U+2028, U+2029, U+202F, U+205F and U+3000.
\<close>

definition space_chars :: "string list" where
  "space_chars =
     [[CHR 0x09], [CHR 0x0A], [CHR 0x0B], [CHR 0x0C], [CHR 0x0D],
      [CHR 0x1C], [CHR 0x1D], [CHR 0x1E], [CHR 0x1F], [CHR 0x20],
      [CHR 0xC2, CHR 0x85], [CHR 0xC2, CHR 0xA0], [CHR 0xE1, CHR 0x9A, CHR 0x80],
      [CHR 0xE2, CHR 0x80, CHR 0x80], [CHR 0xE2, CHR 0x80, CHR 0x81],
      [CHR 0xE2, CHR 0x80, CHR 0x82], [CHR 0xE2, CHR 0x80, CHR 0x83],
      [CHR 0xE2, CHR 0x80, CHR 0x84], [CHR 0xE2, CHR 0x80, CHR 0x85],
      [CHR 0xE2, CHR 0x80, CHR 0x86], [CHR 0xE2, CHR 0x80, CHR 0x87],
      [CHR 0xE2, CHR 0x80, CHR 0x88], [CHR 0xE2, CHR 0x80, CHR 0x89],
      [CHR 0xE2, CHR 0x80, CHR 0x8A], [CHR 0xE2, CHR 0x80, CHR 0xA8],
      [CHR 0xE2, CHR 0x80, CHR 0xA9], [CHR 0xE2, CHR 0x80, CHR 0xAF],
      [CHR 0xE2, CHR 0x81, CHR 0x9F], [CHR 0xE3, CHR 0x80, CHR 0x80]]"

text \<open>\<open>str.isspace\<close> on one ASCII character: tab, LF, VT, FF, CR, FS, GS, RS, US, space.\<close>

definition isspace :: "char \<Rightarrow> bool" where
  "isspace c = (c \<in> {CHR 0x09, CHR 0x0A, CHR 0x0B, CHR 0x0C, CHR 0x0D,
                      CHR 0x1C, CHR 0x1D, CHR 0x1E, CHR 0x1F, CHR 0x20})"

text \<open>The number of bytes of the white-space character that \<open>s\<close> starts with, or 0.\<close>

definition space_len :: "string \<Rightarrow> nat" where
  "space_len s = (case find (\<lambda>k. prefix k s) space_chars of Some k \<Rightarrow> length k | None \<Rightarrow> 0)"

text \<open>The number of bytes of the white-space character that \<open>s\<close> ends with, or 0.\<close>

definition space_len_end :: "string \<Rightarrow> nat" where
  "space_len_end s = (case find (\<lambda>k. suffix k s) space_chars of Some k \<Rightarrow> length k | None \<Rightarrow> 0)"

text \<open>\<open>s.lstrip()\<close> and \<open>s.rstrip()\<close>.\<close>

function lstrip :: "string \<Rightarrow> string" where
  "lstrip s = (if space_len s = 0 then s else lstrip (drop (space_len s) s))"
  by pat_completeness auto
termination
proof (relation "measure length")
  show "wf (measure (length :: string \<Rightarrow> nat))"
    by simp
next
  fix s :: string
  assume pos: "space_len s \<noteq> 0"
  have "s \<noteq> []"
  proof
    assume "s = []"
    then have "space_len s = 0"
      by (auto simp: space_len_def find_Some_iff split: option.splits)
    with pos show False by simp
  qed
  with pos show "(drop (space_len s) s, s) \<in> measure length"
    by simp
qed

function rstrip :: "string \<Rightarrow> string" where
  "rstrip s = (if space_len_end s = 0 then s else rstrip (take (length s - space_len_end s) s))"
  by pat_completeness auto
termination
proof (relation "measure length")
  show "wf (measure (length :: string \<Rightarrow> nat))"
    by simp
next
  fix s :: string
  assume pos: "space_len_end s \<noteq> 0"
  have "s \<noteq> []"
  proof
    assume "s = []"
    then have "space_len_end s = 0"
      by (auto simp: space_len_end_def find_Some_iff split: option.splits)
    with pos show False by simp
  qed
  with pos show "(take (length s - space_len_end s) s, s) \<in> measure length"
    by simp
qed

text \<open>\<open>s.strip()\<close>: white space removed at both ends.\<close>

definition strip :: "string \<Rightarrow> string" where
  "strip s = rstrip (lstrip s)"

text \<open>\<open>s\<close> cut in front of its first white-space character.\<close>

fun break_space :: "string \<Rightarrow> string \<times> string" where
  "break_space [] = ([], [])"
| "break_space (c # cs) =
     (if space_len (c # cs) \<noteq> 0 then ([], c # cs)
      else (case break_space cs of (a, b) \<Rightarrow> (c # a, b)))"

text \<open>
  The line boundaries of \<open>str.splitlines\<close>, in UTF-8: LF, VT, FF, CR, FS, GS, RS, U+0085,
  U+2028 and U+2029.
\<close>

definition line_breaks :: "string list" where
  "line_breaks =
     [[CHR 0x0A], [CHR 0x0B], [CHR 0x0C], [CHR 0x0D], [CHR 0x1C], [CHR 0x1D], [CHR 0x1E],
      [CHR 0xC2, CHR 0x85], [CHR 0xE2, CHR 0x80, CHR 0xA8], [CHR 0xE2, CHR 0x80, CHR 0xA9]]"

text \<open>The number of bytes of the line boundary that \<open>s\<close> starts with (CR LF is one), or 0.\<close>

definition break_len :: "string \<Rightarrow> nat" where
  "break_len s =
     (if prefix [CHR 0x0D, CHR 0x0A] s then 2
      else (case find (\<lambda>k. prefix k s) line_breaks of Some k \<Rightarrow> length k | None \<Rightarrow> 0))"

text \<open>\<open>s\<close> cut in front of its first line boundary.\<close>

fun break_line :: "string \<Rightarrow> string \<times> string" where
  "break_line [] = ([], [])"
| "break_line (c # cs) =
     (if break_len (c # cs) \<noteq> 0 then ([], c # cs)
      else (case break_line cs of (a, b) \<Rightarrow> (c # a, b)))"

text \<open>
  \<open>s.splitlines()\<close>: the lines of \<open>s\<close> without their boundaries; a boundary at the very
  end opens no further line.
\<close>

function splitlines :: "string \<Rightarrow> string list" where
  "splitlines s =
     (if s = [] then []
      else (case break_line s of
              (line, r) \<Rightarrow> if r = [] then [line] else line # splitlines (drop (break_len r) r)))"
  by pat_completeness auto
termination
proof (relation "measure length")
  show "wf (measure (length :: string \<Rightarrow> nat))"
    by simp
next
  fix s line r :: string
  assume "s \<noteq> []" and br: "(line, r) = break_line s" and r: "r \<noteq> []"
  have len: "length (snd (break_line t)) \<le> length t" for t
  proof (induction t)
    case Nil
    show ?case by simp
  next
    case (Cons c cs)
    then show ?case by (cases "break_line cs") simp
  qed
  have stop: "snd (break_line t) = [] \<or> break_len (snd (break_line t)) \<noteq> 0" for t
  proof (induction t)
    case Nil
    show ?case by simp
  next
    case (Cons c cs)
    then show ?case by (cases "break_line cs") simp
  qed
  have r': "r = snd (break_line s)"
    using br by (metis snd_conv)
  from len [of s] stop [of s] r have "length r \<le> length s" and "break_len r \<noteq> 0"
    unfolding r' by simp_all
  with r show "(drop (break_len r) r, s) \<in> measure length"
    by (cases r) auto
qed

text \<open>
  \<open>s.split(sep, maxsplit)\<close> for a one-character separator: at most \<open>maxsplit\<close> cuts,
  from the left; the last field keeps every further separator.
\<close>

fun split_max :: "char \<Rightarrow> nat \<Rightarrow> string \<Rightarrow> string list" where
  "split_max sep 0 s = [s]"
| "split_max sep (Suc n) s =
     (if sep \<in> set s
      then takeWhile (\<lambda>c. c \<noteq> sep) s # split_max sep n (tl (dropWhile (\<lambda>c. c \<noteq> sep) s))
      else [s])"

text \<open>
  \<open>s.split(maxsplit=1)\<close>, the white-space split: leading white space is skipped, the
  first field is the first run of other characters, and the second field, when there
  is one, is the rest after the white space that follows, kept to the end of \<open>s\<close>.
\<close>

definition ws_split1 :: "string \<Rightarrow> string list" where
  "ws_split1 s =
     (let s1 = lstrip s in
      if s1 = [] then []
      else (case break_space s1 of
              (tok, r0) \<Rightarrow> (let r = lstrip r0 in if r = [] then [tok] else [tok, r])))"

text \<open>\<open>str.upper\<close> and \<open>str.lower\<close> on one ASCII character.\<close>

definition upper_char :: "char \<Rightarrow> char" where
  "upper_char c =
     (case map_of (zip ''abcdefghijklmnopqrstuvwxyz'' ''ABCDEFGHIJKLMNOPQRSTUVWXYZ'') c of
        Some u \<Rightarrow> u
      | None \<Rightarrow> c)"

definition lower_char :: "char \<Rightarrow> char" where
  "lower_char c =
     (case map_of (zip ''ABCDEFGHIJKLMNOPQRSTUVWXYZ'' ''abcdefghijklmnopqrstuvwxyz'') c of
        Some l \<Rightarrow> l
      | None \<Rightarrow> c)"

definition is_ascii :: "char \<Rightarrow> bool" where
  "is_ascii c = (of_char c < (128::nat))"

text \<open>
  The characters beyond ASCII whose upper-case form contains an ASCII character, with
  that form, in UTF-8: U+00DF, U+0131 (dotless i, to \<open>I\<close>), U+0149, U+017F, U+01F0, U+1E96
  to U+1E9A, and the ligatures U+FB00 to U+FB06.
\<close>

definition upper_special :: "(string \<times> string) list" where
  "upper_special =
     [([CHR 0xC3, CHR 0x9F], ''SS''),
      ([CHR 0xC4, CHR 0xB1], ''I''),
      ([CHR 0xC5, CHR 0x89], [CHR 0xCA, CHR 0xBC, CHR ''N'']),
      ([CHR 0xC5, CHR 0xBF], ''S''),
      ([CHR 0xC7, CHR 0xB0], [CHR ''J'', CHR 0xCC, CHR 0x8C]),
      ([CHR 0xE1, CHR 0xBA, CHR 0x96], [CHR ''H'', CHR 0xCC, CHR 0xB1]),
      ([CHR 0xE1, CHR 0xBA, CHR 0x97], [CHR ''T'', CHR 0xCC, CHR 0x88]),
      ([CHR 0xE1, CHR 0xBA, CHR 0x98], [CHR ''W'', CHR 0xCC, CHR 0x8A]),
      ([CHR 0xE1, CHR 0xBA, CHR 0x99], [CHR ''Y'', CHR 0xCC, CHR 0x8A]),
      ([CHR 0xE1, CHR 0xBA, CHR 0x9A], [CHR ''A'', CHR 0xCA, CHR 0xBE]),
      ([CHR 0xEF, CHR 0xAC, CHR 0x80], ''FF''),
      ([CHR 0xEF, CHR 0xAC, CHR 0x81], ''FI''),
      ([CHR 0xEF, CHR 0xAC, CHR 0x82], ''FL''),
      ([CHR 0xEF, CHR 0xAC, CHR 0x83], ''FFI''),
      ([CHR 0xEF, CHR 0xAC, CHR 0x84], ''FFL''),
      ([CHR 0xEF, CHR 0xAC, CHR 0x85], ''ST''),
      ([CHR 0xEF, CHR 0xAC, CHR 0x86], ''ST'')]"

text \<open>
  The characters beyond ASCII whose lower-case form contains an ASCII character: U+0130
  and U+212A (the Kelvin sign, to \<open>k\<close>).
\<close>

definition lower_special :: "(string \<times> string) list" where
  "lower_special =
     [([CHR 0xC4, CHR 0xB0], [CHR ''i'', CHR 0xCC, CHR 0x87]),
      ([CHR 0xE2, CHR 0x84, CHR 0xAA], ''k'')]"

text \<open>\<open>s.upper()\<close> and \<open>s.lower()\<close>, character by character from the left.\<close>

fun upper :: "string \<Rightarrow> string" where
  "upper [] = []"
| "upper (c # cs) =
     (if is_ascii c then upper_char c # upper cs
      else (case find (\<lambda>(k, v). prefix k (c # cs)) upper_special of
              Some (k, v) \<Rightarrow> v @ upper (drop (length k - 1) cs)
            | None \<Rightarrow> c # upper cs))"

fun lower :: "string \<Rightarrow> string" where
  "lower [] = []"
| "lower (c # cs) =
     (if is_ascii c then lower_char c # lower cs
      else (case find (\<lambda>(k, v). prefix k (c # cs)) lower_special of
              Some (k, v) \<Rightarrow> v @ lower (drop (length k - 1) cs)
            | None \<Rightarrow> c # lower cs))"

section \<open>Process state, outcomes and the version-control queries\<close>

datatype error =
    ExternalToolError  \<comment> \<open>\<open>subprocess.check_output\<close> raised: git missing or non-zero status\<close>
  | ValueError         \<comment> \<open>a tuple unpacking with the wrong number of fields\<close>
  | KeyError           \<comment> \<open>\<open>current_commit['date']\<close> on the empty dictionary\<close>

text \<open>How a run ends: the function returns, \<open>sys.exit(n)\<close>, or an uncaught exception.\<close>

datatype outcome = Returned | Exit nat | Raised error

text \<open>The exit status of the process: an uncaught exception ends it with status 1.\<close>

fun exit_code :: "outcome \<Rightarrow> nat" where
  "exit_code Returned = 0"
| "exit_code (Exit n) = n"
| "exit_code (Raised e) = 1"

text \<open>The files of the working directory by name, and the lines printed so far.\<close>

record world =
  files :: "string \<rightharpoonup> string"
  stdout :: "string list"

text \<open>
  What each of the three git invocations answers in this run: its standard output, or
  the exception of \<open>check_output\<close>.
\<close>

record git =
  log_plain :: "error + string"   \<comment> \<open>\<open>git log main --pretty=format:%H|%ad|%an|%s --date=short\<close>\<close>
  log_status :: "error + string"  \<comment> \<open>\<open>git log main --name-status --date=short --pretty=format:%H|%ad|%s\<close>\<close>
  ls_tree :: "error + string"     \<comment> \<open>\<open>git ls-tree -r main --name-only\<close>\<close>

definition RECENT_LIMIT :: nat where
  "RECENT_LIMIT = 5"

definition print :: "string \<Rightarrow> world \<Rightarrow> world" where
  "print s w = w\<lparr>stdout := stdout w @ [s]\<rparr>"

text \<open>\<open>open(name, "w")\<close> followed by the writes that reached the file before it was closed.\<close>

definition write_file :: "string \<Rightarrow> string \<Rightarrow> world \<Rightarrow> world" where
  "write_file name text w = w\<lparr>files := (files w)(name \<mapsto> text)\<rparr>"

section \<open>History reader\<close>

definition get_commits :: "git \<Rightarrow> error + string list" where
  "get_commits g =
     (case log_plain g of
        Inl e \<Rightarrow> Inl e
      | Inr output \<Rightarrow> Inr (map strip (splitlines output)))"

text \<open>\<open>_, date, author, msg = line.split("|", 3)\<close>, as (hash, date, author, msg).\<close>

definition split_commit :: "string \<Rightarrow> error + (string \<times> string \<times> string \<times> string)" where
  "split_commit line =
     (case split_max CHR ''|'' 3 line of
        [h, d, a, m] \<Rightarrow> Inr (h, d, a, m)
      | _ \<Rightarrow> Inl ValueError)"

text \<open>The fields of an unpacked commit line.\<close>

abbreviation rec_date :: "string \<times> string \<times> string \<times> string \<Rightarrow> string" where
  "rec_date r \<equiv> fst (snd r)"

abbreviation rec_author :: "string \<times> string \<times> string \<times> string \<Rightarrow> string" where
  "rec_author r \<equiv> fst (snd (snd r))"

abbreviation rec_subject :: "string \<times> string \<times> string \<times> string \<Rightarrow> string" where
  "rec_subject r \<equiv> snd (snd (snd r))"

section \<open>WIP gate\<close>

definition has_wip :: "string \<Rightarrow> bool" where
  "has_wip msg = sublist ''WIP'' (upper msg)"

fun wip_loop :: "string list \<Rightarrow> world \<Rightarrow> outcome \<times> world" where
  "wip_loop [] w = (Returned, print (check_glyph @ '' No WIP commits found.'') w)"
| "wip_loop (line # rest) w =
     (case split_commit line of
        Inl e \<Rightarrow> (Raised e, w)
      | Inr (_, _, _, msg) \<Rightarrow>
          if has_wip msg
          then (Exit 1, print (cross_glyph @ '' Push blocked due to WIP commit: '' @ msg) w)
          else wip_loop rest w)"

definition check_wip :: "git \<Rightarrow> world \<Rightarrow> outcome \<times> world" where
  "check_wip g w =
     (case get_commits g of
        Inl e \<Rightarrow> (Raised e, w)
      | Inr commits \<Rightarrow> wip_loop commits w)"

section \<open>Changelog builder\<close>

text \<open>
  \<open>d[k].append(v)\<close> on a \<open>defaultdict(list)\<close>.  The dictionary is an association list
  with one pair for each key, in the order in which the keys were first stored, which
  is the order of Python's \<open>d.keys()\<close>.
\<close>

fun dd_append :: "('k \<times> 'v list) list \<Rightarrow> 'k \<Rightarrow> 'v \<Rightarrow> ('k \<times> 'v list) list" where
  "dd_append [] k v = [(k, [v])]"
| "dd_append ((k', vs) # kvs) k v =
     (if k' = k then (k', vs @ [v]) # kvs else (k', vs) # dd_append kvs k v)"

text \<open>\<open>d[k]\<close> read on a \<open>defaultdict(list)\<close>: the empty list for a key never stored.\<close>

definition dd_get :: "('k \<times> 'v list) list \<Rightarrow> 'k \<Rightarrow> 'v list" where
  "dd_get d k = (case map_of d k of Some vs \<Rightarrow> vs | None \<Rightarrow> [])"

definition dd_keys :: "('k \<times> 'v list) list \<Rightarrow> 'k list" where
  "dd_keys d = map fst d"

text \<open>The grouping loop of \<open>build_changelog\<close>.\<close>

fun group_loop ::
  "string list \<Rightarrow> (string \<times> (string \<times> string) list) list \<Rightarrow>
   error + (string \<times> (string \<times> string) list) list" where
  "group_loop [] grouped = Inr grouped"
| "group_loop (line # rest) grouped =
     (case split_commit line of
        Inl e \<Rightarrow> Inl e
      | Inr (_, date, author, msg) \<Rightarrow> group_loop rest (dd_append grouped date (msg, author)))"

definition summary_entry :: "string \<Rightarrow> string \<Rightarrow> string \<Rightarrow> string" where
  "summary_entry date msg author =
     ''- '' @ date @ '' '' @ em_dash @ '' '' @ msg @ '' '' @ em_dash @ '' Author: '' @ author @ nl"

text \<open>
  The summary loop, over \<open>commits[:RECENT_LIMIT]\<close>: the text written so far is threaded
  through, and returned with the exception when a line does not unpack.
\<close>

fun summary_loop :: "string list \<Rightarrow> string \<Rightarrow> error option \<times> string" where
  "summary_loop [] out = (None, out)"
| "summary_loop (line # rest) out =
     (case split_commit line of
        Inl e \<Rightarrow> (Some e, out)
      | Inr (_, date, author, msg) \<Rightarrow> summary_loop rest (out @ summary_entry date msg author))"

definition history_entry :: "string \<times> string \<Rightarrow> string" where
  "history_entry = (\<lambda>(msg, author). ''- '' @ msg @ '' '' @ em_dash @ '' '' @ author @ nl)"

text \<open>\<open>sorted(grouped.keys(), reverse=True)\<close>.\<close>

definition history_dates :: "(string \<times> (string \<times> string) list) list \<Rightarrow> string list" where
  "history_dates grouped = rev (sort (dd_keys grouped))"

definition history_section :: "(string \<times> (string \<times> string) list) list \<Rightarrow> string \<Rightarrow> string" where
  "history_section grouped date =
     ''### '' @ date @ nl @ nl @ concat (map history_entry (dd_get grouped date)) @ nl"

definition full_history :: "(string \<times> (string \<times> string) list) list \<Rightarrow> string" where
  "full_history grouped = concat (map (history_section grouped) (history_dates grouped))"

definition build_changelog :: "git \<Rightarrow> world \<Rightarrow> outcome \<times> world" where
  "build_changelog g w =
     (case get_commits g of
        Inl e \<Rightarrow> (Raised e, w)
      | Inr commits \<Rightarrow>
          (let t0 = ''# CHANGELOG'' @ nl @ nl in
           case group_loop commits [] of
             Inl e \<Rightarrow> (Raised e, write_file ''CHANGELOG.md'' t0 w)
           | Inr grouped \<Rightarrow>
               (case summary_loop (take RECENT_LIMIT commits)
                             (t0 @ ''## Summary (Last 5 Commits)'' @ nl @ nl) of
                  (Some e, t) \<Rightarrow> (Raised e, write_file ''CHANGELOG.md'' t w)
                | (None, t) \<Rightarrow>
                    (Returned,
                     print (check_glyph @ '' CHANGELOG.md updated.'')
                       (write_file ''CHANGELOG.md''
                          (t @ nl @ ''## Full History'' @ nl @ nl @ full_history grouped) w)))))"

section \<open>Manifest builder\<close>

text \<open>The dictionary \<open>current_commit\<close> once a header line has filled it.\<close>

record commit_ctx =
  c_hash :: string
  c_date :: string
  c_msg :: string

text \<open>The variables of the parse loop; \<open>current_commit = None\<close> is the empty dictionary.\<close>

record parse_state =
  added :: "(string \<times> string list) list"
  deleted :: "(string \<times> string list) list"
  recent_changes :: "string list"
  current_commit :: "commit_ctx option"

definition init_state :: parse_state where
  "init_state = \<lparr>added = [], deleted = [], recent_changes = [], current_commit = None\<rparr>"

text \<open>\<open>line.startswith(("A", "D"))\<close>.\<close>

definition starts_AD :: "string \<Rightarrow> bool" where
  "starts_AD line = (case line of [] \<Rightarrow> False | c # _ \<Rightarrow> c = CHR ''A'' \<or> c = CHR ''D'')"

definition change_entry :: "commit_ctx \<Rightarrow> string" where
  "change_entry c = c_date c @ '' '' @ em_dash @ '' '' @ c_msg c"

definition recent_line :: "commit_ctx \<Rightarrow> string \<Rightarrow> string \<Rightarrow> string" where
  "recent_line c verb path =
     c_date c @ '' '' @ em_dash @ '' '' @ verb @ '' '' @ path @ '' '' @ em_dash @ '' '' @
     dquote @ c_msg c @ dquote"

text \<open>The body of the parse loop of \<open>build_manifest\<close>, for one line.\<close>

definition parse_line :: "parse_state \<Rightarrow> string \<Rightarrow> error + parse_state" where
  "parse_line st line =
     (if CHR ''|'' \<in> set line then
        (let parts = split_max CHR ''|'' 2 (strip line) in
         if length parts = 3
         then Inr (st\<lparr>current_commit :=
                      Some \<lparr>c_hash = parts ! 0, c_date = parts ! 1, c_msg = parts ! 2\<rparr>\<rparr>)
         else Inr st)
      else if starts_AD line then
        (case ws_split1 line of
           [status, path] \<Rightarrow>
             (case current_commit st of
                None \<Rightarrow> Inl KeyError
              | Some c \<Rightarrow>
                  if status = ''A'' then
                    Inr (st\<lparr>added := dd_append (added st) path (change_entry c),
                            recent_changes := recent_changes st @ [recent_line c ''Added'' path]\<rparr>)
                  else if status = ''D'' then
                    Inr (st\<lparr>deleted := dd_append (deleted st) path (change_entry c),
                            recent_changes := recent_changes st @ [recent_line c ''Deleted'' path]\<rparr>)
                  else Inr st)
         | _ \<Rightarrow> Inl ValueError)
      else Inr st)"

fun parse_loop :: "string list \<Rightarrow> parse_state \<Rightarrow> error + parse_state" where
  "parse_loop [] st = Inr st"
| "parse_loop (line # rest) st =
     (case parse_line st line of
        Inl e \<Rightarrow> Inl e
      | Inr st' \<Rightarrow> parse_loop rest st')"

definition added_lines :: "parse_state \<Rightarrow> string \<Rightarrow> string" where
  "added_lines st path =
     (if path \<in> set (dd_keys (added st))
      then concat (map (\<lambda>entry. ''  Added: '' @ entry @ nl) (dd_get (added st) path))
      else [])"

definition deleted_lines :: "parse_state \<Rightarrow> string \<Rightarrow> string" where
  "deleted_lines st path =
     (if path \<in> set (dd_keys (deleted st))
      then concat (map (\<lambda>entry. ''  Deleted: '' @ entry @ nl) (dd_get (deleted st) path))
      else [])"

definition current_files_section :: "parse_state \<Rightarrow> string list \<Rightarrow> string" where
  "current_files_section st current_files =
     concat (map (\<lambda>path. page_glyph @ '' '' @ path @ nl @ added_lines st path @ nl)
                 (sort current_files))"

definition recent_section :: "parse_state \<Rightarrow> string" where
  "recent_section st =
     concat (map (\<lambda>line. ''- '' @ line @ nl) (take RECENT_LIMIT (recent_changes st))) @ nl"

text \<open>\<open>sorted(set(list(added.keys()) + list(deleted.keys())))\<close>.\<close>

definition all_paths :: "parse_state \<Rightarrow> string list" where
  "all_paths st = sort (remdups (dd_keys (added st) @ dd_keys (deleted st)))"

definition path_history :: "parse_state \<Rightarrow> string \<Rightarrow> string" where
  "path_history st path =
     page_glyph @ '' '' @ path @ nl @ added_lines st path @ deleted_lines st path @ nl"

definition file_history_section :: "parse_state \<Rightarrow> string" where
  "file_history_section st = concat (map (path_history st) (all_paths st))"

definition manifest_head :: string where
  "manifest_head = ''# MANIFEST'' @ nl @ nl @ ''## Current Files'' @ nl @ nl"

definition build_manifest :: "git \<Rightarrow> world \<Rightarrow> outcome \<times> world" where
  "build_manifest g w =
     (case log_status g of
        Inl e \<Rightarrow> (Raised e, w)
      | Inr output \<Rightarrow>
          (case parse_loop (splitlines output) init_state of
             Inl e \<Rightarrow> (Raised e, w)
           | Inr st \<Rightarrow>
               (case ls_tree g of
                  Inl e \<Rightarrow> (Raised e, write_file ''MANIFEST.md'' manifest_head w)
                | Inr tree \<Rightarrow>
                    (Returned,
                     print (check_glyph @ '' MANIFEST.md updated.'')
                       (write_file ''MANIFEST.md''
                          (manifest_head @ current_files_section st (splitlines tree) @
                           ''## Recent Changes (Last 5)'' @ nl @ nl @ recent_section st @
                           ''## Full File History'' @ nl @ nl @ file_history_section st) w)))))"

section \<open>Entry point\<close>

definition usage_message :: string where
  "usage_message = ''Usage: python git_toolbox.py [manifest|changelog|check-wip]''"

definition invalid_message :: string where
  "invalid_message = ''Invalid command. Use one of: manifest, changelog, check-wip''"

text \<open>
  The \<open>__main__\<close> block on \<open>sys.argv\<close> (the script name first).  A builder that returns
  lets the script run off its end.
\<close>

definition main :: "string list \<Rightarrow> git \<Rightarrow> world \<Rightarrow> outcome \<times> world" where
  "main argv g w =
     (if length argv \<noteq> 2 then (Exit 1, print usage_message w)
      else (let action = lower (argv ! 1) in
            if action = ''manifest'' then build_manifest g w
            else if action = ''changelog'' then build_changelog g w
            else if action = ''check-wip'' then check_wip g w
            else (Exit 1, print invalid_message w)))"

section \<open>Notions used in the statements\<close>

text \<open>
  A line of the extended log that the parse loop takes as a commit header: it contains
  the delimiter and, stripped, splits into three fields.
\<close>

definition is_header :: "string \<Rightarrow> bool" where
  "is_header line = (CHR ''|'' \<in> set line \<and> length (split_max CHR ''|'' 2 (strip line)) = 3)"



section \<open>A sample history\<close>

text \<open>
  Three commits, newest first, on two dates; \<open>a.txt\<close> is added by the oldest commit and
  deleted by the newest, which also deletes \<open>old.txt\<close>, a file from before the recorded
  history; the tree of the branch holds \<open>b.txt\<close>.
\<close>

definition tab :: string where
  "tab = [CHR 0x09]"

definition demo_status_output :: string where
  "demo_status_output =
     ''a1|2024-03-02|fix bug'' @ nl @
     ''D'' @ tab @ ''a.txt'' @ nl @
     ''D'' @ tab @ ''old.txt'' @ nl @ nl @
     ''c3|2024-03-01|release'' @ nl @
     ''A'' @ tab @ ''a.txt'' @ nl @
     ''A'' @ tab @ ''b.txt''"

definition demo_git :: git where
  "demo_git =
     \<lparr>log_plain = Inr (''a1|2024-03-02|ann|fix bug'' @ nl @
                       ''b2|2024-03-02|bob|WIP: draft'' @ nl @
                       ''c3|2024-03-01|cy|release''),
      log_status = Inr demo_status_output,
      ls_tree = Inr (''b.txt'' @ nl)\<rparr>"

definition demo_world :: world where
  "demo_world =
     \<lparr>files = [''CHANGELOG.md'' \<mapsto> ''previous changelog'',
               ''MANIFEST.md'' \<mapsto> ''previous manifest''],
      stdout = []\<rparr>"

text \<open>
  Two variants of the plain log: one whose second subject contains \<open>wip\<close> inside a word
  and whose last line is not a commit line, and one without any marker.
\<close>

definition demo_git_tail :: git where
  "demo_git_tail =
     demo_git\<lparr>log_plain := Inr (''a1|2024-03-02|ann|fix bug'' @ nl @
                                ''b2|2024-03-02|bob|they wiped it'' @ nl @
                                ''not a commit line'')\<rparr>"

definition demo_git_clean :: git where
  "demo_git_clean =
     demo_git\<lparr>log_plain := Inr (''a1|2024-03-02|ann|fix bug'' @ nl @
                                ''c3|2024-03-01|cy|release'')\<rparr>"

text \<open>The lines of the plain log of the sample, and the fields they unpack into.\<close>

definition demo_commits :: "string list" where
  "demo_commits =
     [''a1|2024-03-02|ann|fix bug'', ''b2|2024-03-02|bob|WIP: draft'', ''c3|2024-03-01|cy|release'']"

definition demo_recs :: "(string \<times> string \<times> string \<times> string) list" where
  "demo_recs =
     [(''a1'', ''2024-03-02'', ''ann'', ''fix bug''),
      (''b2'', ''2024-03-02'', ''bob'', ''WIP: draft''),
      (''c3'', ''2024-03-01'', ''cy'', ''release'')]"


text \<open>
  Two malformed extended logs: one that starts with a status line, its header missing,
  and one whose only line is the status line of a path that contains the delimiter.
\<close>

definition demo_git_headless :: git where
  "demo_git_headless =
     demo_git\<lparr>log_status := Inr (''A'' @ tab @ ''a.txt'' @ nl @ ''c3|2024-03-01|release'')\<rparr>"

definition demo_git_barpath :: git where
  "demo_git_barpath = demo_git\<lparr>log_status := Inr (''A'' @ tab @ ''notes/a|b.txt'')\<rparr>"


section \<open>Properties of the text primitives\<close>

declare splitlines.simps [simp del] lstrip.simps [simp del] rstrip.simps [simp del]

declare upper.simps [simp del] lower.simps [simp del]

lemma split_max_length: "length (split_max sep n s) \<le> Suc n"
  by (induction n arbitrary: s) auto

lemma split_max_field:
  assumes "sep \<notin> set h"
  shows "split_max sep (Suc n) (h @ sep # r) = h # split_max sep n r"
proof -
  have "takeWhile (\<lambda>c. c \<noteq> sep) (h @ sep # r) = h"
    using assms by (induction h) auto
  moreover have "dropWhile (\<lambda>c. c \<noteq> sep) (h @ sep # r) = sep # r"
    using assms by (induction h) auto
  ultimately show ?thesis by simp
qed

lemma split_commit_line:
  assumes "CHR ''|'' \<notin> set h" "CHR ''|'' \<notin> set d" "CHR ''|'' \<notin> set a"
  shows "split_max CHR ''|'' 3 (h @ ''|'' @ d @ ''|'' @ a @ ''|'' @ s) = [h, d, a, s]"
proof -
  have "split_max CHR ''|'' 0 s = [s]"
    by simp
  then have "split_max CHR ''|'' (Suc 0) (a @ CHR ''|'' # s) = [a, s]"
    by (simp only: split_max_field [OF assms(3)])
  then have "split_max CHR ''|'' (Suc (Suc 0)) (d @ CHR ''|'' # a @ CHR ''|'' # s) = [d, a, s]"
    by (simp only: split_max_field [OF assms(2)])
  then have "split_max CHR ''|'' (Suc (Suc (Suc 0)))
               (h @ CHR ''|'' # d @ CHR ''|'' # a @ CHR ''|'' # s) = [h, d, a, s]"
    by (simp only: split_max_field [OF assms(1)])
  then show ?thesis by (simp add: numeral_3_eq_3)
qed

lemma map_eq_three:
  assumes "map f vs = a # b # c # ss"
  shows "\<exists>c1 c2 c3 rest. vs = [c1, c2, c3] @ rest \<and> f c1 = a \<and> f c2 = b \<and> f c3 = c"
proof -
  from assms obtain c1 v1 where v1: "vs = c1 # v1" "f c1 = a" "map f v1 = b # c # ss"
    by (cases vs) auto
  from v1(3) obtain c2 v2 where v2: "v1 = c2 # v2" "f c2 = b" "map f v2 = c # ss"
    by (cases v1) auto
  from v2(3) obtain c3 v3 where v3: "v2 = c3 # v3" "f c3 = c"
    by (cases v2) auto
  show ?thesis using v1 v2 v3 by simp
qed

lemma map_eq_appendD:
  assumes "map f xs = ys @ zs"
  shows "\<exists>us vs. xs = us @ vs \<and> map f vs = zs"
  using assms by (metis append_take_drop_id drop_map append_eq_conv_conj length_map)

text \<open>A line with at least three delimiters has three delimiter-free leading fields.\<close>

lemma cut_at_first:
  assumes "sep \<in> set s"
  shows "\<exists>h r. s = h @ sep # r \<and> sep \<notin> set h"
  using assms by (metis split_list_first)

lemma count_list_absent: "x \<notin> set xs \<Longrightarrow> count_list xs x = 0"
  by (induction xs) auto

lemma count_list_present: "0 < count_list xs x \<Longrightarrow> x \<in> set xs"
  by (induction xs) (auto split: if_splits)

lemma cut_counted:
  assumes "Suc n \<le> count_list s sep"
  shows "\<exists>h r. s = h @ sep # r \<and> sep \<notin> set h \<and> n \<le> count_list r sep"
proof -
  have "0 < count_list s sep"
    using assms by simp
  then have "sep \<in> set s"
    by (rule count_list_present)
  from cut_at_first [OF this] obtain h r where s: "s = h @ sep # r" and h: "sep \<notin> set h"
    by (elim exE conjE)
  have "count_list s sep = Suc (count_list r sep)"
    unfolding s by (simp add: count_list_absent [OF h])
  then have "n \<le> count_list r sep"
    using assms by simp
  then show ?thesis using s h by (intro exI conjI)
qed

lemma commit_line_fields:
  assumes "3 \<le> count_list line CHR ''|''"
  shows "\<exists>h d a s. line = h @ ''|'' @ d @ ''|'' @ a @ ''|'' @ s \<and>
           CHR ''|'' \<notin> set h \<and> CHR ''|'' \<notin> set d \<and> CHR ''|'' \<notin> set a"
proof -
  from assms have "Suc 2 \<le> count_list line CHR ''|''"
    by simp
  from cut_counted [OF this] obtain h r1 where l1: "line = h @ CHR ''|'' # r1"
    and h: "CHR ''|'' \<notin> set h" and c1: "2 \<le> count_list r1 CHR ''|''"
    by (elim exE conjE)
  from c1 have "Suc 1 \<le> count_list r1 CHR ''|''"
    by simp
  from cut_counted [OF this] obtain d r2 where l2: "r1 = d @ CHR ''|'' # r2"
    and d: "CHR ''|'' \<notin> set d" and c2: "1 \<le> count_list r2 CHR ''|''"
    by (elim exE conjE)
  from c2 have "Suc 0 \<le> count_list r2 CHR ''|''"
    by simp
  from cut_counted [OF this] obtain a s where l3: "r2 = a @ CHR ''|'' # s"
    and a: "CHR ''|'' \<notin> set a"
    by (elim exE conjE)
  have "line = h @ ''|'' @ d @ ''|'' @ a @ ''|'' @ s"
    by (simp add: l1 l2 l3)
  then show ?thesis using h d a by (intro exI conjI)
qed

section \<open>The WIP gate leaves every file alone\<close>

lemma wip_loop_frame: "\<exists>out. snd (wip_loop ls w) = w\<lparr>stdout := stdout w @ out\<rparr>"
proof (induction ls)
  case Nil
  show ?case by (auto simp: print_def intro!: exI)
next
  case (Cons line ls)
  show ?case
  proof (cases "split_commit line")
    case (Inl e)
    then have "snd (wip_loop (line # ls) w) = w\<lparr>stdout := stdout w @ []\<rparr>" by simp
    then show ?thesis by blast
  next
    case (Inr r)
    then show ?thesis using Cons by (auto simp: print_def split: prod.splits)
  qed
qed

text \<open>
  C9.  Whatever the history query answers, and whether a WIP subject is found or not,
  \<open>check_wip\<close> writes no file: the files after the run are the files before it, and
  the only change to the process state is what was printed.
\<close>

theorem check_wip_writes_no_file:
  "files (snd (check_wip g w)) = files w \<and>
   (\<exists>out. snd (check_wip g w) = w\<lparr>stdout := stdout w @ out\<rparr>)"
proof -
  obtain out where "snd (check_wip g w) = w\<lparr>stdout := stdout w @ out\<rparr>"
  proof (cases "get_commits g")
    case (Inl e)
    then have "snd (check_wip g w) = w\<lparr>stdout := stdout w @ []\<rparr>" by (simp add: check_wip_def)
    then show ?thesis using that by blast
  next
    case (Inr commits)
    then show ?thesis using that wip_loop_frame [of commits w] by (auto simp: check_wip_def)
  qed
  then show ?thesis by (metis world.select_convs(1) world.surjective world.update_convs(2))
qed

theorem check_wip_writes_no_file_witness:
  "files (snd (check_wip demo_git demo_world)) ''CHANGELOG.md'' = Some ''previous changelog'' \<and>
   files (snd (check_wip demo_git demo_world)) ''MANIFEST.md'' = Some ''previous manifest''"
  using check_wip_writes_no_file [of demo_git demo_world] by (simp add: demo_world_def)

section \<open>Header lines of the extended log that do not have three fields\<close>

text \<open>
  C10.  In the parse loop of \<open>build_manifest\<close>, a line that contains the delimiter but
  does not split into exactly three fields raises nothing and leaves the whole loop
  state as it was (no event recorded, the current commit kept), so the lines after it
  are parsed as if it had not been there.
\<close>

theorem malformed_header_skipped:
  assumes "CHR ''|'' \<in> set line" and "length (split_max CHR ''|'' 2 (strip line)) \<noteq> 3"
  shows "parse_line st line = Inr st \<and> parse_loop (line # rest) st = parse_loop rest st"
  using assms by (simp add: parse_line_def)

theorem malformed_header_skipped_witness:
  "CHR ''|'' \<in> set ''abc123|2024-01-02'' \<and>
   length (split_max CHR ''|'' 2 (strip ''abc123|2024-01-02'')) \<noteq> 3 \<and>
   parse_line init_state ''abc123|2024-01-02'' = Inr init_state \<and>
   parse_loop [''abc123|2024-01-02'', ''M README''] init_state =
     parse_loop [''M README''] init_state"
proof -
  have h1: "CHR ''|'' \<in> set ''abc123|2024-01-02''"
    by simp
  have h2: "length (split_max CHR ''|'' 2 (strip ''abc123|2024-01-02'')) \<noteq> 3"
    by code_simp
  show ?thesis
    using malformed_header_skipped [OF h1 h2, of init_state "[''M README'']"] h1 h2 by blast
qed

section \<open>Dispatch of the entry point\<close>

text \<open>
  C8.  The entry point dispatches on \<open>sys.argv\<close>: with exactly one argument after the
  script name whose lower-cased value is \<open>manifest\<close>, \<open>changelog\<close> or \<open>check-wip\<close> it
  runs that operation; with any other argument count or value it runs no operation,
  prints one message, exits with status 1 and leaves every file as it was.
\<close>

theorem main_dispatch:
  "main argv g w =
     (if length argv = 2 \<and> lower (argv ! 1) = ''manifest'' then build_manifest g w
      else if length argv = 2 \<and> lower (argv ! 1) = ''changelog'' then build_changelog g w
      else if length argv = 2 \<and> lower (argv ! 1) = ''check-wip'' then check_wip g w
      else (Exit 1, print (if length argv \<noteq> 2 then usage_message else invalid_message) w)) \<and>
   (length argv \<noteq> 2 \<or> lower (argv ! 1) \<notin> {''manifest'', ''changelog'', ''check-wip''} \<longrightarrow>
      exit_code (fst (main argv g w)) = 1 \<and>
      files (snd (main argv g w)) = files w \<and>
      (\<exists>msg. stdout (snd (main argv g w)) = stdout w @ [msg]))"
  by (auto simp: main_def print_def Let_def)

theorem main_dispatch_witness:
  "length [''git_toolbox.py'', ''push'', ''now''] \<noteq> 2 \<and>
   main [''git_toolbox.py'', ''push'', ''now''] demo_git demo_world =
     (Exit 1, print usage_message demo_world) \<and>
   lower ([''git_toolbox.py'', ''Release''] ! 1) \<notin> {''manifest'', ''changelog'', ''check-wip''} \<and>
   main [''git_toolbox.py'', ''Release''] demo_git demo_world =
     (Exit 1, print invalid_message demo_world) \<and>
   main [''git_toolbox.py'', ''Check-WIP''] demo_git demo_world = check_wip demo_git demo_world"
proof -
  have l1: "lower ''Release'' = ''release''" by code_simp
  have l2: "lower ''Check-WIP'' = ''check-wip''" by code_simp
  show ?thesis
    using main_dispatch [of "[''git_toolbox.py'', ''push'', ''now'']" demo_git demo_world]
      main_dispatch [of "[''git_toolbox.py'', ''Release'']" demo_git demo_world]
      main_dispatch [of "[''git_toolbox.py'', ''Check-WIP'']" demo_git demo_world]
    by (simp add: l1 l2)
qed

section \<open>A failing version-control query\<close>

text \<open>
  When the log query of an operation fails, the exception leaves the operation before
  its document is opened: the process state is untouched.
\<close>

lemma build_changelog_log_failure:
  "log_plain g = Inl e \<Longrightarrow> build_changelog g w = (Raised e, w)"
  by (simp add: build_changelog_def get_commits_def)

lemma build_manifest_log_failure:
  "log_status g = Inl e \<Longrightarrow> build_manifest g w = (Raised e, w)"
  by (simp add: build_manifest_def)

text \<open>
  The tree-listing query of \<open>build_manifest\<close> runs after \<open>MANIFEST.md\<close> has been opened
  for writing and two headings have been written.  When it fails, the operation ends
  with that exception and the document holds the two headings only.
\<close>

lemma build_manifest_tree_failure:
  assumes "log_status g = Inr output" and "parse_loop (splitlines output) init_state = Inr st"
    and "ls_tree g = Inl e"
  shows "build_manifest g w = (Raised e, write_file ''MANIFEST.md'' manifest_head w)"
  using assms by (simp add: build_manifest_def)

text \<open>
  C1.  On the sample history with a failing tree-listing query, \<open>build_manifest\<close> ends
  with the exception of the query, and the manifest of the previous run has been
  replaced by the two headings.
\<close>

theorem manifest_truncated_when_tree_listing_fails:
  "fst (build_manifest (demo_git\<lparr>ls_tree := Inl ExternalToolError\<rparr>) demo_world) =
     Raised ExternalToolError \<and>
   files demo_world ''MANIFEST.md'' = Some ''previous manifest'' \<and>
   files (snd (build_manifest (demo_git\<lparr>ls_tree := Inl ExternalToolError\<rparr>) demo_world))
     ''MANIFEST.md'' = Some (''# MANIFEST'' @ nl @ nl @ ''## Current Files'' @ nl @ nl)"
  by code_simp

section \<open>The WIP gate stops at the first match\<close>

lemma wip_loop_find:
  "map split_commit ls = map Inr recs \<Longrightarrow>
   wip_loop ls w =
     (case find has_wip (map rec_subject recs) of
        Some m \<Rightarrow> (Exit 1, print (cross_glyph @ '' Push blocked due to WIP commit: '' @ m) w)
      | None \<Rightarrow> (Returned, print (check_glyph @ '' No WIP commits found.'') w))"
proof (induction ls arbitrary: recs)
  case Nil
  then show ?case by simp
next
  case (Cons line ls)
  then obtain r rs where recs: "recs = r # rs" and r: "split_commit line = Inr r"
    and rs: "map split_commit ls = map Inr rs"
    by (cases recs) auto
  show ?case
    using Cons.IH [OF rs] r by (cases r) (simp add: recs)
qed

lemma wip_loop_short_circuit:
  assumes "map split_commit pre = map Inr recs" and "\<forall>r \<in> set recs. \<not> has_wip (rec_subject r)"
    and "split_commit line = Inr r" and "has_wip (rec_subject r)"
  shows "wip_loop (pre @ line # post) w =
           (Exit 1, print (cross_glyph @ '' Push blocked due to WIP commit: '' @ rec_subject r) w)"
  using assms(1,2)
proof (induction pre arbitrary: recs)
  case Nil
  show ?case using assms(3,4) by (cases r) simp
next
  case (Cons l pre)
  then obtain q qs where recs: "recs = q # qs" and q: "split_commit l = Inr q"
    and qs: "map split_commit pre = map Inr qs"
    by (cases recs) auto
  have "\<not> has_wip (rec_subject q)" and "\<forall>r \<in> set qs. \<not> has_wip (rec_subject r)"
    using Cons.prems(2) recs by auto
  then show ?case
    using Cons.IH [OF qs] q by (cases q) simp
qed

lemma upper_char_W: "upper_char c = CHR ''W'' \<longleftrightarrow> c = CHR ''W'' \<or> c = CHR ''w''"
  by (auto simp: upper_char_def split: if_splits)

lemma upper_char_I: "upper_char c = CHR ''I'' \<longleftrightarrow> c = CHR ''I'' \<or> c = CHR ''i''"
  by (auto simp: upper_char_def split: if_splits)

lemma upper_char_P: "upper_char c = CHR ''P'' \<longleftrightarrow> c = CHR ''P'' \<or> c = CHR ''p''"
  by (auto simp: upper_char_def split: if_splits)

text \<open>On a subject of ASCII characters, upper-casing is the ASCII mapping of each.\<close>

lemma upper_ascii: "list_all is_ascii s \<Longrightarrow> upper s = map upper_char s"
  by (induction s) (simp_all add: upper.simps)

lemma has_wip_iff:
  assumes "list_all is_ascii msg"
  shows "has_wip msg \<longleftrightarrow>
     (\<exists>ps c1 c2 c3 ss. msg = ps @ [c1, c2, c3] @ ss \<and>
        (c1 = CHR ''W'' \<or> c1 = CHR ''w'') \<and> (c2 = CHR ''I'' \<or> c2 = CHR ''i'') \<and>
        (c3 = CHR ''P'' \<or> c3 = CHR ''p''))"
proof
  have up: "upper msg = map upper_char msg"
    using assms by (rule upper_ascii)
  assume "has_wip msg"
  then obtain ps ss where "map upper_char msg = ps @ ''WIP'' @ ss"
    by (auto simp: has_wip_def up sublist_def)
  then obtain us vs where us: "msg = us @ vs" and vs: "map upper_char vs = ''WIP'' @ ss"
    using map_eq_appendD by blast
  from vs have "map upper_char vs = CHR ''W'' # CHR ''I'' # CHR ''P'' # ss"
    by simp
  from map_eq_three [OF this] obtain c1 c2 c3 rest where "vs = [c1, c2, c3] @ rest"
    "upper_char c1 = CHR ''W''" "upper_char c2 = CHR ''I''" "upper_char c3 = CHR ''P''"
    by blast
  with us have "msg = us @ [c1, c2, c3] @ rest"
    "upper_char c1 = CHR ''W''" "upper_char c2 = CHR ''I''" "upper_char c3 = CHR ''P''"
    by simp_all
  then have "msg = us @ [c1, c2, c3] @ rest \<and>
        (c1 = CHR ''W'' \<or> c1 = CHR ''w'') \<and> (c2 = CHR ''I'' \<or> c2 = CHR ''i'') \<and>
        (c3 = CHR ''P'' \<or> c3 = CHR ''p'')"
    unfolding upper_char_W upper_char_I upper_char_P by blast
  then show "\<exists>ps c1 c2 c3 ss. msg = ps @ [c1, c2, c3] @ ss \<and>
        (c1 = CHR ''W'' \<or> c1 = CHR ''w'') \<and> (c2 = CHR ''I'' \<or> c2 = CHR ''i'') \<and>
        (c3 = CHR ''P'' \<or> c3 = CHR ''p'')"
    by blast
next
  have up: "upper msg = map upper_char msg"
    using assms by (rule upper_ascii)
  assume "\<exists>ps c1 c2 c3 ss. msg = ps @ [c1, c2, c3] @ ss \<and>
        (c1 = CHR ''W'' \<or> c1 = CHR ''w'') \<and> (c2 = CHR ''I'' \<or> c2 = CHR ''i'') \<and>
        (c3 = CHR ''P'' \<or> c3 = CHR ''p'')"
  then obtain ps c1 c2 c3 ss where msg: "msg = ps @ [c1, c2, c3] @ ss"
    and "upper_char c1 = CHR ''W''" "upper_char c2 = CHR ''I''" "upper_char c3 = CHR ''P''"
    unfolding upper_char_W upper_char_I upper_char_P by blast
  then have "upper msg = map upper_char ps @ ''WIP'' @ map upper_char ss"
    unfolding up by simp
  then show "has_wip msg"
    unfolding has_wip_def sublist_def by blast
qed

text \<open>
  The dotless i (U+0131) upper-cases to \<open>I\<close>, so a subject with \<open>w\<close>, dotless i, \<open>p\<close> is
  a match as well.
\<close>

lemma has_wip_dotless_i: "has_wip (''fix w'' @ [CHR 0xC4, CHR 0xB1] @ ''p thing'')"
  by code_simp

text \<open>
  C2.  \<open>check_wip\<close> goes through the commit lines in the order received and tests each
  subject for \<open>WIP\<close> anywhere in its upper-cased form; for a subject of ASCII characters
  that is three adjacent characters w/W, i/I, p/P anywhere in it.  The first subject
  that matches is reported and the run exits with status 1, whatever the lines after
  it are (they are not even unpacked); when no subject matches, the run ends normally,
  with status 0.
\<close>

theorem check_wip_first_match:
  assumes "get_commits g = Inr commits"
  shows
    "(map split_commit commits = map Inr recs \<longrightarrow>
        check_wip g w =
          (case find has_wip (map rec_subject recs) of
             Some m \<Rightarrow> (Exit 1, print (cross_glyph @ '' Push blocked due to WIP commit: '' @ m) w)
           | None \<Rightarrow> (Returned, print (check_glyph @ '' No WIP commits found.'') w)) \<and>
        exit_code (fst (check_wip g w)) =
          (if \<exists>m \<in> set (map rec_subject recs). has_wip m then 1 else 0)) \<and>
     (commits = pre @ line # post \<and> map split_commit pre = map Inr before \<and>
      (\<forall>r \<in> set before. \<not> has_wip (rec_subject r)) \<and>
      split_commit line = Inr r \<and> has_wip (rec_subject r) \<longrightarrow>
        check_wip g w =
          (Exit 1, print (cross_glyph @ '' Push blocked due to WIP commit: '' @ rec_subject r) w)) \<and>
     (has_wip msg \<longleftrightarrow> (\<exists>ps ss. upper msg = ps @ ''WIP'' @ ss)) \<and>
     (list_all is_ascii msg \<longrightarrow>
        (has_wip msg \<longleftrightarrow>
           (\<exists>ps c1 c2 c3 ss. msg = ps @ [c1, c2, c3] @ ss \<and>
              (c1 = CHR ''W'' \<or> c1 = CHR ''w'') \<and> (c2 = CHR ''I'' \<or> c2 = CHR ''i'') \<and>
              (c3 = CHR ''P'' \<or> c3 = CHR ''p''))))"
proof (intro conjI impI)
  assume recs: "map split_commit commits = map Inr recs"
  show eq: "check_wip g w =
          (case find has_wip (map rec_subject recs) of
             Some m \<Rightarrow> (Exit 1, print (cross_glyph @ '' Push blocked due to WIP commit: '' @ m) w)
           | None \<Rightarrow> (Returned, print (check_glyph @ '' No WIP commits found.'') w))"
    using assms wip_loop_find [OF recs] by (simp add: check_wip_def)
  show "exit_code (fst (check_wip g w)) =
          (if \<exists>m \<in> set (map rec_subject recs). has_wip m then 1 else 0)"
  proof (cases "find has_wip (map rec_subject recs)")
    case None
    then have "\<not> (\<exists>m \<in> set (map rec_subject recs). has_wip m)"
      by (simp add: find_None_iff)
    then show ?thesis unfolding eq None by simp
  next
    case (Some m)
    then have "\<exists>m \<in> set (map rec_subject recs). has_wip m"
      unfolding find_Some_iff by (metis nth_mem)
    then show ?thesis unfolding eq Some by simp
  qed
next
  assume "commits = pre @ line # post \<and> map split_commit pre = map Inr before \<and>
      (\<forall>r \<in> set before. \<not> has_wip (rec_subject r)) \<and>
      split_commit line = Inr r \<and> has_wip (rec_subject r)"
  then show "check_wip g w =
          (Exit 1, print (cross_glyph @ '' Push blocked due to WIP commit: '' @ rec_subject r) w)"
    using assms wip_loop_short_circuit [of pre before line r post w]
    by (simp add: check_wip_def)
next
  show "has_wip msg \<longleftrightarrow> (\<exists>ps ss. upper msg = ps @ ''WIP'' @ ss)"
    by (simp add: has_wip_def sublist_def)
next
  assume "list_all is_ascii msg"
  then show "has_wip msg \<longleftrightarrow>
        (\<exists>ps c1 c2 c3 ss. msg = ps @ [c1, c2, c3] @ ss \<and>
           (c1 = CHR ''W'' \<or> c1 = CHR ''w'') \<and> (c2 = CHR ''I'' \<or> c2 = CHR ''i'') \<and>
           (c3 = CHR ''P'' \<or> c3 = CHR ''p''))"
    by (rule has_wip_iff)
qed

theorem check_wip_first_match_witness:
  "check_wip demo_git demo_world =
     (Exit 1, print (cross_glyph @ '' Push blocked due to WIP commit: WIP: draft'') demo_world) \<and>
   check_wip demo_git_tail demo_world =
     (Exit 1, print (cross_glyph @ '' Push blocked due to WIP commit: they wiped it'') demo_world) \<and>
   check_wip demo_git_clean demo_world =
     (Returned, print (check_glyph @ '' No WIP commits found.'') demo_world) \<and>
   exit_code (fst (check_wip demo_git_clean demo_world)) = 0"
proof -
  have c1: "get_commits demo_git =
      Inr [''a1|2024-03-02|ann|fix bug'', ''b2|2024-03-02|bob|WIP: draft'', ''c3|2024-03-01|cy|release'']"
    by code_simp
  have p1: "map split_commit
      [''a1|2024-03-02|ann|fix bug'', ''b2|2024-03-02|bob|WIP: draft'', ''c3|2024-03-01|cy|release''] =
      map Inr [(''a1'', ''2024-03-02'', ''ann'', ''fix bug''),
               (''b2'', ''2024-03-02'', ''bob'', ''WIP: draft''),
               (''c3'', ''2024-03-01'', ''cy'', ''release'')]"
    by code_simp
  have f1: "find has_wip (map rec_subject [(''a1'', ''2024-03-02'', ''ann'', ''fix bug''),
               (''b2'', ''2024-03-02'', ''bob'', ''WIP: draft''),
               (''c3'', ''2024-03-01'', ''cy'', ''release'')]) = Some ''WIP: draft''"
    by code_simp
  have c2: "get_commits demo_git_tail =
      Inr ([''a1|2024-03-02|ann|fix bug''] @ ''b2|2024-03-02|bob|they wiped it'' # [''not a commit line''])"
    by code_simp
  have p2: "map split_commit [''a1|2024-03-02|ann|fix bug''] =
      map Inr [(''a1'', ''2024-03-02'', ''ann'', ''fix bug'')]"
    by code_simp
  have n2: "\<forall>r \<in> set [(''a1'', ''2024-03-02'', ''ann'', ''fix bug'')]. \<not> has_wip (rec_subject r)"
    by code_simp
  have s2: "split_commit ''b2|2024-03-02|bob|they wiped it'' =
      Inr (''b2'', ''2024-03-02'', ''bob'', ''they wiped it'')"
    by code_simp
  have h2: "has_wip (rec_subject (''b2'', ''2024-03-02'', ''bob'', ''they wiped it''))"
    by code_simp
  have c3: "get_commits demo_git_clean =
      Inr [''a1|2024-03-02|ann|fix bug'', ''c3|2024-03-01|cy|release'']"
    by code_simp
  have p3: "map split_commit [''a1|2024-03-02|ann|fix bug'', ''c3|2024-03-01|cy|release''] =
      map Inr [(''a1'', ''2024-03-02'', ''ann'', ''fix bug''), (''c3'', ''2024-03-01'', ''cy'', ''release'')]"
    by code_simp
  have f3: "find has_wip (map rec_subject
      [(''a1'', ''2024-03-02'', ''ann'', ''fix bug''), (''c3'', ''2024-03-01'', ''cy'', ''release'')]) = None"
    by code_simp
  have r1: "check_wip demo_git demo_world =
     (Exit 1, print (cross_glyph @ '' Push blocked due to WIP commit: WIP: draft'') demo_world)"
    using check_wip_first_match [OF c1, where w = demo_world, THEN conjunct1, THEN mp, OF p1,
        THEN conjunct1]
    unfolding f1 by simp
  have r2: "check_wip demo_git_tail demo_world =
     (Exit 1, print (cross_glyph @ '' Push blocked due to WIP commit: they wiped it'') demo_world)"
    using check_wip_first_match [OF c2, where w = demo_world, THEN conjunct2, THEN conjunct1,
        THEN mp, OF conjI [OF refl conjI [OF p2 conjI [OF n2 conjI [OF s2 h2]]]]]
    by simp
  have r3: "check_wip demo_git_clean demo_world =
     (Returned, print (check_glyph @ '' No WIP commits found.'') demo_world)"
    using check_wip_first_match [OF c3, where w = demo_world, THEN conjunct1, THEN mp, OF p3,
        THEN conjunct1]
    unfolding f3 by simp
  show ?thesis using r1 r2 r3 by simp
qed

section \<open>Subjects that contain the delimiter\<close>

text \<open>
  C5.  A commit line is cut at its first three delimiters only, so it never has more
  than four fields, and every line with at least three delimiters unpacks into four
  fields that, joined by the delimiter, give the line back.  For a line
  \<open>hash|date|author|subject\<close> the fourth field is the whole subject, delimiters
  included, and the grouping and summary loops of the changelog and the loop of the WIP
  gate all receive that subject.
\<close>

theorem subject_with_delimiter_kept:
  assumes "CHR ''|'' \<notin> set h" and "CHR ''|'' \<notin> set d" and "CHR ''|'' \<notin> set a"
  shows "length (split_max CHR ''|'' 3 any_line) \<le> 4 \<and>
         (3 \<le> count_list any_line CHR ''|'' \<longrightarrow>
            (\<exists>h' d' a' s'. any_line = h' @ ''|'' @ d' @ ''|'' @ a' @ ''|'' @ s' \<and>
                            split_commit any_line = Inr (h', d', a', s'))) \<and>
         split_max CHR ''|'' 3 (h @ ''|'' @ d @ ''|'' @ a @ ''|'' @ s) = [h, d, a, s] \<and>
         split_commit (h @ ''|'' @ d @ ''|'' @ a @ ''|'' @ s) = Inr (h, d, a, s) \<and>
         group_loop [h @ ''|'' @ d @ ''|'' @ a @ ''|'' @ s] [] = Inr [(d, [(s, a)])] \<and>
         summary_loop [h @ ''|'' @ d @ ''|'' @ a @ ''|'' @ s] out =
           (None, out @ summary_entry d s a) \<and>
         wip_loop [h @ ''|'' @ d @ ''|'' @ a @ ''|'' @ s] w =
           (if has_wip s
            then (Exit 1, print (cross_glyph @ '' Push blocked due to WIP commit: '' @ s) w)
            else (Returned, print (check_glyph @ '' No WIP commits found.'') w))"
proof -
  have len: "length (split_max CHR ''|'' 3 any_line) \<le> 4"
    using split_max_length [of "CHR ''|''" 3 any_line] by simp
  have every: "\<exists>h' d' a' s'. any_line = h' @ ''|'' @ d' @ ''|'' @ a' @ ''|'' @ s' \<and>
                 split_commit any_line = Inr (h', d', a', s')"
    if "3 \<le> count_list any_line CHR ''|''"
  proof -
    from commit_line_fields [OF that] obtain h' d' a' s' where
      l: "any_line = h' @ ''|'' @ d' @ ''|'' @ a' @ ''|'' @ s'"
      and f: "CHR ''|'' \<notin> set h'" "CHR ''|'' \<notin> set d'" "CHR ''|'' \<notin> set a'"
      by (elim exE conjE)
    have "split_commit any_line = Inr (h', d', a', s')"
      unfolding l split_commit_def split_commit_line [OF f] by simp
    with l show ?thesis by (intro exI conjI)
  qed
  have fields: "split_max CHR ''|'' 3 (h @ ''|'' @ d @ ''|'' @ a @ ''|'' @ s) = [h, d, a, s]"
    by (rule split_commit_line [OF assms])
  then have rec: "split_commit (h @ ''|'' @ d @ ''|'' @ a @ ''|'' @ s) = Inr (h, d, a, s)"
    by (simp add: split_commit_def)
  show ?thesis
    using len every fields rec by simp
qed

theorem subject_with_delimiter_kept_witness:
  "CHR ''|'' \<notin> set ''a1'' \<and> CHR ''|'' \<notin> set ''2024-03-02'' \<and> CHR ''|'' \<notin> set ''ann'' \<and>
   3 \<le> count_list ''a1|2024-03-02|ann|merge x|y into z|w'' CHR ''|'' \<and>
   split_commit ''a1|2024-03-02|ann|merge x|y into z|w'' =
     Inr (''a1'', ''2024-03-02'', ''ann'', ''merge x|y into z|w'')"
proof -
  have h1: "CHR ''|'' \<notin> set ''a1''" and h2: "CHR ''|'' \<notin> set ''2024-03-02''"
    and h3: "CHR ''|'' \<notin> set ''ann''"
    by simp_all
  have h4: "3 \<le> count_list ''a1|2024-03-02|ann|merge x|y into z|w'' CHR ''|''"
    by simp
  show ?thesis
    using subject_with_delimiter_kept [OF h1 h2 h3, of _ "''merge x|y into z|w''"] h1 h2 h3 h4
    by simp
qed

section \<open>The sample history, evaluated\<close>

lemma demo_get_commits: "get_commits demo_git = Inr demo_commits"
  by code_simp

lemma demo_split_commits: "map split_commit demo_commits = map Inr demo_recs"
  by code_simp




text \<open>The two documents that the builders write for the sample history.\<close>

lemma demo_changelog_text:
  "files (snd (build_changelog demo_git demo_world)) ''CHANGELOG.md'' =
     Some (''# CHANGELOG'' @ nl @ nl @
           ''## Summary (Last 5 Commits)'' @ nl @ nl @
           ''- 2024-03-02 '' @ em_dash @ '' fix bug '' @ em_dash @ '' Author: ann'' @ nl @
           ''- 2024-03-02 '' @ em_dash @ '' WIP: draft '' @ em_dash @ '' Author: bob'' @ nl @
           ''- 2024-03-01 '' @ em_dash @ '' release '' @ em_dash @ '' Author: cy'' @ nl @
           nl @ ''## Full History'' @ nl @ nl @
           ''### 2024-03-02'' @ nl @ nl @
           ''- fix bug '' @ em_dash @ '' ann'' @ nl @
           ''- WIP: draft '' @ em_dash @ '' bob'' @ nl @ nl @
           ''### 2024-03-01'' @ nl @ nl @
           ''- release '' @ em_dash @ '' cy'' @ nl @ nl)"
  by code_simp

lemma demo_manifest_text:
  "files (snd (build_manifest demo_git demo_world)) ''MANIFEST.md'' =
     Some (''# MANIFEST'' @ nl @ nl @
           ''## Current Files'' @ nl @ nl @
           page_glyph @ '' b.txt'' @ nl @
           ''  Added: 2024-03-01 '' @ em_dash @ '' release'' @ nl @ nl @
           ''## Recent Changes (Last 5)'' @ nl @ nl @
           ''- 2024-03-02 '' @ em_dash @ '' Deleted a.txt '' @ em_dash @ '' '' @ dquote @ ''fix bug'' @ dquote @ nl @
           ''- 2024-03-02 '' @ em_dash @ '' Deleted old.txt '' @ em_dash @ '' '' @ dquote @ ''fix bug'' @ dquote @ nl @
           ''- 2024-03-01 '' @ em_dash @ '' Added a.txt '' @ em_dash @ '' '' @ dquote @ ''release'' @ dquote @ nl @
           ''- 2024-03-01 '' @ em_dash @ '' Added b.txt '' @ em_dash @ '' '' @ dquote @ ''release'' @ dquote @ nl @
           nl @
           ''## Full File History'' @ nl @ nl @
           page_glyph @ '' a.txt'' @ nl @
           ''  Added: 2024-03-01 '' @ em_dash @ '' release'' @ nl @
           ''  Deleted: 2024-03-02 '' @ em_dash @ '' fix bug'' @ nl @ nl @
           page_glyph @ '' b.txt'' @ nl @
           ''  Added: 2024-03-01 '' @ em_dash @ '' release'' @ nl @ nl @
           page_glyph @ '' old.txt'' @ nl @
           ''  Deleted: 2024-03-02 '' @ em_dash @ '' fix bug'' @ nl @ nl)"
  by code_simp

section \<open>The changelog\<close>

lemma dd_keys_append:
  "dd_keys (dd_append g k v) = (if k \<in> set (dd_keys g) then dd_keys g else dd_keys g @ [k])"
  by (induction g k v rule: dd_append.induct) (auto simp: dd_keys_def)

lemma dd_get_append:
  "dd_get (dd_append g k v) k' = (if k' = k then dd_get g k @ [v] else dd_get g k')"
  by (induction g k v rule: dd_append.induct) (auto simp: dd_get_def)

lemma dd_keys_append_distinct:
  "distinct (dd_keys g) \<Longrightarrow> distinct (dd_keys (dd_append g k v))"
  by (simp add: dd_keys_append)

lemma group_loop_ok:
  "map split_commit ls = map Inr recs \<Longrightarrow> distinct (dd_keys g) \<Longrightarrow>
   \<exists>g'. group_loop ls g = Inr g' \<and>
        distinct (dd_keys g') \<and>
        set (dd_keys g') = set (dd_keys g) \<union> rec_date ` set recs \<and>
        (\<forall>d. dd_get g' d =
              dd_get g d @ map (\<lambda>r. (rec_subject r, rec_author r)) (filter (\<lambda>r. rec_date r = d) recs))"
proof (induction ls arbitrary: recs g)
  case Nil
  then show ?case by simp
next
  case (Cons line ls)
  then obtain r rs where recs: "recs = r # rs" and r: "split_commit line = Inr r"
    and rs: "map split_commit ls = map Inr rs"
    by (cases recs) auto
  obtain h d a m where rd: "r = (h, d, a, m)"
    by (cases r) auto
  let ?g = "dd_append g d (m, a)"
  have "distinct (dd_keys ?g)"
    using Cons.prems(2) by (rule dd_keys_append_distinct)
  from Cons.IH [OF rs this] obtain g' where g': "group_loop ls ?g = Inr g'"
    "distinct (dd_keys g')" "set (dd_keys g') = set (dd_keys ?g) \<union> rec_date ` set rs"
    "\<forall>d'. dd_get g' d' =
        dd_get ?g d' @ map (\<lambda>r. (rec_subject r, rec_author r)) (filter (\<lambda>r. rec_date r = d') rs)"
    by blast
  have "group_loop (line # ls) g = Inr g'"
    using r rd g'(1) by simp
  moreover have "set (dd_keys g') = set (dd_keys g) \<union> rec_date ` set recs"
    using g'(3) by (auto simp: dd_keys_append recs rd)
  moreover have "\<forall>d'. dd_get g' d' =
        dd_get g d' @ map (\<lambda>r. (rec_subject r, rec_author r)) (filter (\<lambda>r. rec_date r = d') recs)"
    using g'(4) by (simp add: dd_get_append recs rd)
  ultimately show ?case using g'(2) by blast
qed

lemma summary_loop_ok:
  "map split_commit ls = map Inr recs \<Longrightarrow>
   summary_loop ls out =
     (None, out @ concat (map (\<lambda>r. summary_entry (rec_date r) (rec_subject r) (rec_author r)) recs))"
proof (induction ls arbitrary: recs out)
  case Nil
  then show ?case by simp
next
  case (Cons line ls)
  then obtain r rs where recs: "recs = r # rs" and r: "split_commit line = Inr r"
    and rs: "map split_commit ls = map Inr rs"
    by (cases recs) auto
  show ?case
    using Cons.IH [OF rs] r by (cases r) (simp add: recs)
qed

lemma build_changelog_document:
  assumes "get_commits g = Inr commits" and "map split_commit commits = map Inr recs"
    and "group_loop commits [] = Inr grouped"
  shows "build_changelog g w =
    (Returned,
     print (check_glyph @ '' CHANGELOG.md updated.'')
       (write_file ''CHANGELOG.md''
          (''# CHANGELOG'' @ nl @ nl @ ''## Summary (Last 5 Commits)'' @ nl @ nl @
           concat (map (\<lambda>r. summary_entry (rec_date r) (rec_subject r) (rec_author r)) (take 5 recs)) @
           nl @ ''## Full History'' @ nl @ nl @ full_history grouped) w))"
proof -
  have "map split_commit (take 5 commits) = map Inr (take 5 recs)"
    using assms(2) by (metis take_map)
  from summary_loop_ok [OF this] show ?thesis
    using assms(1,3) by (simp add: build_changelog_def RECENT_LIMIT_def)
qed

lemma indicator_sum_absent:
  "a \<notin> set ds \<Longrightarrow> sum_list (map (\<lambda>d. if a = d then 1 else 0) ds) = (0::nat)"
  by (induction ds) auto

lemma indicator_sum_present:
  "distinct ds \<Longrightarrow> a \<in> set ds \<Longrightarrow> sum_list (map (\<lambda>d. if a = d then 1 else 0) ds) = (1::nat)"
  by (induction ds) (auto simp: indicator_sum_absent)

lemma sum_length_filter_groups:
  assumes "distinct ds" and "f ` set xs \<subseteq> set ds"
  shows "sum_list (map (\<lambda>d. length (filter (\<lambda>x. f x = d) xs)) ds) = length xs"
  using assms(2)
proof (induction xs)
  case Nil
  then show ?case by simp
next
  case (Cons x xs)
  have "sum_list (map (\<lambda>d. length (filter (\<lambda>y. f y = d) (x # xs))) ds) =
        sum_list (map (\<lambda>d. (if f x = d then 1 else 0) + length (filter (\<lambda>y. f y = d) xs)) ds)"
    by (rule arg_cong [where f = sum_list]) (rule map_cong, simp_all)
  also have "\<dots> = sum_list (map (\<lambda>d. if f x = d then 1 else 0) ds) +
                   sum_list (map (\<lambda>d. length (filter (\<lambda>y. f y = d) xs)) ds)"
    by (simp add: sum_list_addf)
  also have "sum_list (map (\<lambda>d. if f x = d then 1 else 0) ds) = (1::nat)"
    using assms(1) Cons.prems by (intro indicator_sum_present) auto
  finally show ?case using Cons by simp
qed

text \<open>
  C4.  When every commit line unpacks, \<open>build_changelog\<close> returns, and in the document
  it writes the Summary heading is followed by exactly \<open>min(5, number of commits)\<close>
  entries and then by the Full History heading; the entries are those of the first
  commits, in the order received, each as \<open>- date -- subject -- Author: author\<close> with em dashes.  (Also
  for an empty history, where the section has no entry.)
\<close>

theorem summary_lists_first_five:
  assumes "get_commits g = Inr commits" and "map split_commit commits = map Inr recs"
  shows "fst (build_changelog g w) = Returned \<and>
         (\<exists>history.
            files (snd (build_changelog g w)) ''CHANGELOG.md'' =
              Some (''# CHANGELOG'' @ nl @ nl @ ''## Summary (Last 5 Commits)'' @ nl @ nl @
                    concat (map (\<lambda>r. ''- '' @ rec_date r @ '' '' @ em_dash @ '' '' @ rec_subject r @
                                      '' '' @ em_dash @ '' Author: '' @ rec_author r @ nl)
                                (take (min 5 (length commits)) recs)) @
                    nl @ ''## Full History'' @ nl @ nl @ history)) \<and>
         length (take (min 5 (length commits)) recs) = min 5 (length commits)"
proof -
  have len: "length recs = length commits"
    using assms(2) by (metis length_map)
  then have tk: "take (min 5 (length commits)) recs = take 5 recs"
    by (simp add: min_def)
  obtain grouped where grouped: "group_loop commits [] = Inr grouped"
    using group_loop_ok [OF assms(2), of "[]"] by (auto simp: dd_keys_def)
  have doc: "files (snd (build_changelog g w)) ''CHANGELOG.md'' =
      Some (''# CHANGELOG'' @ nl @ nl @ ''## Summary (Last 5 Commits)'' @ nl @ nl @
            concat (map (\<lambda>r. ''- '' @ rec_date r @ '' '' @ em_dash @ '' '' @ rec_subject r @
                              '' '' @ em_dash @ '' Author: '' @ rec_author r @ nl)
                        (take (min 5 (length commits)) recs)) @
            nl @ ''## Full History'' @ nl @ nl @ full_history grouped)"
    unfolding tk build_changelog_document [OF assms grouped]
    by (simp add: print_def write_file_def summary_entry_def)
  have "fst (build_changelog g w) = Returned"
    unfolding build_changelog_document [OF assms grouped] by simp
  moreover have "length (take (min 5 (length commits)) recs) = min 5 (length commits)"
    using len by simp
  ultimately show ?thesis using doc by blast
qed

theorem summary_lists_first_five_witness:
  "fst (build_changelog demo_git demo_world) = Returned \<and>
   (\<exists>history.
      files (snd (build_changelog demo_git demo_world)) ''CHANGELOG.md'' =
        Some (''# CHANGELOG'' @ nl @ nl @ ''## Summary (Last 5 Commits)'' @ nl @ nl @
              concat (map (\<lambda>r. ''- '' @ rec_date r @ '' '' @ em_dash @ '' '' @ rec_subject r @
                                '' '' @ em_dash @ '' Author: '' @ rec_author r @ nl)
                          (take (min 5 (length demo_commits)) demo_recs)) @
              nl @ ''## Full History'' @ nl @ nl @ history)) \<and>
   length (take (min 5 (length demo_commits)) demo_recs) = min 5 (length demo_commits)"
  by (rule summary_lists_first_five [OF demo_get_commits demo_split_commits])

text \<open>
  C3.  When every commit line unpacks, the Full History part of the document written by
  \<open>build_changelog\<close> is one subsection for each date of the history, the dates strictly
  descending (hence without repetition); the subsection of a date lists exactly the
  commits of that date, in the order received, so that each commit is listed under one
  date and the subsections together have as many entries as there are commits.
\<close>

theorem history_grouped_by_date:
  assumes "get_commits g = Inr commits" and "map split_commit commits = map Inr recs"
  shows "\<exists>grouped summary.
           group_loop commits [] = Inr grouped \<and>
           files (snd (build_changelog g w)) ''CHANGELOG.md'' =
             Some (summary @ ''## Full History'' @ nl @ nl @
                   concat (map (\<lambda>d. ''### '' @ d @ nl @ nl @
                                     concat (map (\<lambda>r. ''- '' @ rec_subject r @ '' '' @ em_dash @ '' '' @
                                                       rec_author r @ nl)
                                                 (filter (\<lambda>r. rec_date r = d) recs)) @ nl)
                               (history_dates grouped))) \<and>
           sorted_wrt (\<lambda>d d'. d > d') (history_dates grouped) \<and>
           distinct (history_dates grouped) \<and>
           set (history_dates grouped) = rec_date ` set recs \<and>
           sum_list (map (\<lambda>d. length (filter (\<lambda>r. rec_date r = d) recs)) (history_dates grouped)) =
             length recs"
proof -
  obtain grouped where grouped: "group_loop commits [] = Inr grouped"
    and dist: "distinct (dd_keys grouped)"
    and keys: "set (dd_keys grouped) = rec_date ` set recs"
    and groups: "\<And>d. dd_get grouped d =
        map (\<lambda>r. (rec_subject r, rec_author r)) (filter (\<lambda>r. rec_date r = d) recs)"
    using group_loop_ok [OF assms(2), of "[]"] by (auto simp: dd_keys_def dd_get_def)
  have sect: "history_section grouped d =
      ''### '' @ d @ nl @ nl @
      concat (map (\<lambda>r. ''- '' @ rec_subject r @ '' '' @ em_dash @ '' '' @ rec_author r @ nl)
                  (filter (\<lambda>r. rec_date r = d) recs)) @ nl" for d
    by (simp add: history_section_def groups history_entry_def comp_def)
  have hist: "full_history grouped =
      concat (map (\<lambda>d. ''### '' @ d @ nl @ nl @
                        concat (map (\<lambda>r. ''- '' @ rec_subject r @ '' '' @ em_dash @ '' '' @
                                          rec_author r @ nl)
                                    (filter (\<lambda>r. rec_date r = d) recs)) @ nl)
                  (history_dates grouped))"
    unfolding full_history_def using sect by presburger
  have doc: "files (snd (build_changelog g w)) ''CHANGELOG.md'' =
      Some ((''# CHANGELOG'' @ nl @ nl @ ''## Summary (Last 5 Commits)'' @ nl @ nl @
             concat (map (\<lambda>r. summary_entry (rec_date r) (rec_subject r) (rec_author r)) (take 5 recs)) @
             nl) @ ''## Full History'' @ nl @ nl @ full_history grouped)"
    unfolding build_changelog_document [OF assms grouped]
    by (simp add: print_def write_file_def)
  have d1: "distinct (history_dates grouped)"
    using dist by (simp add: history_dates_def)
  have "sorted_wrt (<) (sort (dd_keys grouped))"
    using dist by (simp add: strict_sorted_iff)
  then have d2: "sorted_wrt (\<lambda>d d'. d > d') (history_dates grouped)"
    by (simp add: history_dates_def sorted_wrt_rev)
  have d3: "set (history_dates grouped) = rec_date ` set recs"
    using keys by (simp add: history_dates_def)
  have d4: "sum_list (map (\<lambda>d. length (filter (\<lambda>r. rec_date r = d) recs)) (history_dates grouped)) =
      length recs"
    using d1 d3 by (intro sum_length_filter_groups) auto
  show ?thesis
    using grouped doc d1 d2 d3 d4 unfolding hist by blast
qed

theorem history_grouped_by_date_witness:
  "\<exists>grouped summary.
     group_loop demo_commits [] = Inr grouped \<and>
     files (snd (build_changelog demo_git demo_world)) ''CHANGELOG.md'' =
       Some (summary @ ''## Full History'' @ nl @ nl @
             concat (map (\<lambda>d. ''### '' @ d @ nl @ nl @
                               concat (map (\<lambda>r. ''- '' @ rec_subject r @ '' '' @ em_dash @ '' '' @
                                                 rec_author r @ nl)
                                           (filter (\<lambda>r. rec_date r = d) demo_recs)) @ nl)
                         (history_dates grouped))) \<and>
     sorted_wrt (\<lambda>d d'. d > d') (history_dates grouped) \<and>
     distinct (history_dates grouped) \<and>
     set (history_dates grouped) = rec_date ` set demo_recs \<and>
     sum_list (map (\<lambda>d. length (filter (\<lambda>r. rec_date r = d) demo_recs)) (history_dates grouped)) =
       length demo_recs"
  by (rule history_grouped_by_date [OF demo_get_commits demo_split_commits])

section \<open>The file history of the manifest\<close>









section \<open>A status line before any header\<close>

lemma parse_loop_append:
  "parse_loop (pre @ rest) st =
     (case parse_loop pre st of Inl e \<Rightarrow> Inl e | Inr st' \<Rightarrow> parse_loop rest st')"
  by (induction pre arbitrary: st) (auto split: sum.splits)

lemma parse_line_status_branch:
  assumes "CHR ''|'' \<notin> set line" and "starts_AD line" and "current_commit st = None"
  shows "\<exists>e. parse_line st line = Inl e"
proof (cases "\<exists>status path. ws_split1 line = [status, path]")
  case True
  then obtain status path where "ws_split1 line = [status, path]"
    by blast
  then have "parse_line st line = Inl KeyError"
    using assms by (simp add: parse_line_def)
  then show ?thesis by blast
next
  case False
  then have "(case ws_split1 line of
                [status, path] \<Rightarrow> f status path
              | _ \<Rightarrow> Inl ValueError) = Inl ValueError" for f :: "string \<Rightarrow> string \<Rightarrow> error + parse_state"
    by (simp split: list.splits)
  then have "parse_line st line = Inl ValueError"
    using assms(1,2) unfolding parse_line_def by simp
  then show ?thesis by blast
qed

lemma parse_line_without_context:
  assumes "current_commit st = None" and "\<not> is_header line"
  shows "parse_line st line = Inr st \<or> (\<exists>e. parse_line st line = Inl e)"
proof (cases "CHR ''|'' \<in> set line")
  case True
  then have "length (split_max CHR ''|'' 2 (strip line)) \<noteq> 3"
    using assms(2) by (simp add: is_header_def)
  then show ?thesis using True by (simp add: parse_line_def)
next
  case False
  show ?thesis
  proof (cases "starts_AD line")
    case True
    then show ?thesis using parse_line_status_branch [OF False True assms(1)] by blast
  next
    case no: False
    then show ?thesis using False by (simp add: parse_line_def)
  qed
qed

lemma parse_loop_without_context:
  assumes "current_commit st = None" and "\<forall>l \<in> set pre. \<not> is_header l"
  shows "parse_loop pre st = Inr st \<or> (\<exists>e. parse_loop pre st = Inl e)"
  using assms(2)
proof (induction pre)
  case Nil
  show ?case by simp
next
  case (Cons l pre)
  then have "\<not> is_header l" and IH: "parse_loop pre st = Inr st \<or> (\<exists>e. parse_loop pre st = Inl e)"
    by simp_all
  from parse_line_without_context [OF assms(1) this(1)] IH show ?case
    by auto
qed

text \<open>
  C7, as stated, fails for a path that contains the delimiter: the loop tests for the
  delimiter first, takes the line \<open>A notes/a|b.txt\<close> as a header with too few fields and
  skips it, and the manifest is written.
\<close>

theorem status_line_with_delimiter_counterexample:
  "log_status demo_git_barpath = Inr (CHR ''A'' # tab @ ''notes/a|b.txt'') \<and>
   splitlines (CHR ''A'' # tab @ ''notes/a|b.txt'') = [CHR ''A'' # tab @ ''notes/a|b.txt''] \<and>
   ws_split1 (CHR ''A'' # tab @ ''notes/a|b.txt'') = [''A'', ''notes/a|b.txt''] \<and>
   fst (build_manifest demo_git_barpath demo_world) = Returned \<and>
   files (snd (build_manifest demo_git_barpath demo_world)) ''MANIFEST.md'' =
     Some (''# MANIFEST'' @ nl @ nl @ ''## Current Files'' @ nl @ nl @
           page_glyph @ '' b.txt'' @ nl @ nl @
           ''## Recent Changes (Last 5)'' @ nl @ nl @ nl @
           ''## Full File History'' @ nl @ nl)"
  by code_simp

text \<open>
  C7, amended.  A line \<open>A\<close> or \<open>D\<close>, white space, path, whose path is free of the
  delimiter and which comes before any header line, makes \<open>build_manifest\<close> end with an
  exception before \<open>MANIFEST.md\<close> is opened: the process state is unchanged.
\<close>

theorem status_line_without_context_aborts:
  assumes "log_status g = Inr output" and "splitlines output = pre @ line # post"
    and "\<forall>l \<in> set pre. \<not> is_header l"
    and "line = c # ws @ path" and "c = CHR ''A'' \<or> c = CHR ''D''"
    and "ws \<noteq> []" and "\<forall>x \<in> set ws. isspace x"
    and "path \<noteq> []" and "\<not> isspace (hd path)" and "CHR ''|'' \<notin> set path"
  shows "\<exists>e. build_manifest g w = (Raised e, w)"
proof -
  have init: "current_commit init_state = None"
    by (simp add: init_state_def)
  have "\<not> isspace CHR ''|''"
    by (simp add: isspace_def)
  then have "CHR ''|'' \<notin> set ws"
    using assms(7) by blast
  moreover have "c \<noteq> CHR ''|''"
    using assms(5) by (rule disjE) simp_all
  ultimately have nobar: "CHR ''|'' \<notin> set line"
    using assms(10) by (simp add: assms(4))
  have "starts_AD line"
    using assms(5) by (simp add: starts_AD_def assms(4))
  from parse_line_status_branch [OF nobar this init]
  obtain e where key: "parse_line init_state line = Inl e"
    by (elim exE)
  have "\<exists>e. parse_loop (pre @ line # post) init_state = Inl e"
    using parse_loop_without_context [OF init assms(3)] key
    by (auto simp: parse_loop_append)
  then show ?thesis
    using assms(1,2) by (auto simp: build_manifest_def)
qed

theorem status_line_without_context_aborts_witness:
  "\<exists>e. build_manifest demo_git_headless demo_world = (Raised e, demo_world)"
proof -
  have o: "log_status demo_git_headless = Inr (''A'' @ tab @ ''a.txt'' @ nl @ ''c3|2024-03-01|release'')"
    by code_simp
  have l: "splitlines (''A'' @ tab @ ''a.txt'' @ nl @ ''c3|2024-03-01|release'') =
      [] @ (''A'' @ tab @ ''a.txt'') # [''c3|2024-03-01|release'']"
    by code_simp
  have p: "\<forall>l \<in> set ([] :: string list). \<not> is_header l"
    by simp
  have d: "''A'' @ tab @ ''a.txt'' = CHR ''A'' # tab @ ''a.txt''"
    by simp
  have c: "CHR ''A'' = CHR ''A'' \<or> CHR ''A'' = CHR ''D''"
    by simp
  have w1: "tab \<noteq> []" and w2: "\<forall>x \<in> set tab. isspace x"
    by (simp_all add: tab_def isspace_def)
  have q1: "''a.txt'' \<noteq> []" and q2: "\<not> isspace (hd ''a.txt'')" and q3: "CHR ''|'' \<notin> set ''a.txt''"
    by (simp_all add: isspace_def)
  show ?thesis
    by (rule status_line_without_context_aborts [OF o l p d c w1 w2 q1 q2 q3])
qed

end
